theory Spec2Isabelle
  imports Complex_Main
begin

section \<open>The call-graph registry of pycallgraphix (\<open>pycallgraphix/wrapper.py\<close>)\<close>

text \<open>
  The module keeps one process-wide \<open>SingletonForCallGraph\<close> object. The decorator
  \<open>register_method\<close> wraps a function so that every invocation first talks to that
  object, then runs the function, then talks to the object again.

  Python objects are shared by reference: the very \<open>MethodCall\<close> object the wrapper
  appends to \<open>my_list_all_functions\<close> is also appended to
  \<open>my_list_source_functions\<close> and to the \<open>source_functions\<close> of later callees, and
  \<open>make_graphviz_chart\<close> later assigns to its \<open>node\<close> attribute. The model therefore
  has an explicit store: a list of \<open>MethodCall\<close> values, an object being its index.
\<close>

subsection \<open>Data\<close>

type_synonym addr = nat

text \<open>A \<open>pydot.Node\<close> is only ever compared by identity; it is modelled by a serial number.\<close>

type_synonym pydot_node = nat

text \<open>\<open>@dataclass class MethodCall: name: str; node: pydot.Node = None\<close>\<close>

record MethodCall =
  name :: string
  node :: "pydot_node option"

text \<open>
  The \<open>__eq__\<close> that \<open>@dataclass\<close> generates compares the tuples of all fields:
  \<open>(self.name, self.node) == (other.name, other.node)\<close>.
\<close>

definition MethodCall_eq :: "MethodCall \<Rightarrow> MethodCall \<Rightarrow> bool" where
  "MethodCall_eq x y = ((name x, node x) = (name y, node y))"

text \<open>One value of the dictionary \<open>my_info\<close>; times are floats, modelled as reals.\<close>

record info =
  timer :: real
  callcounter :: int
  start :: real
  source_functions :: "addr list"

datatype exn = KeyError string | ValueError | UserError string

datatype outcome = Returned | Raised exn

text \<open>
  The state: the store of \<open>MethodCall\<close> objects, the three attributes of the singleton,
  the reading of \<open>time.perf_counter()\<close> and the number of \<open>pydot.Node\<close> objects made.
\<close>

record registry =
  store :: "MethodCall list"
  my_list_all_functions :: "addr list"
  my_list_source_functions :: "addr list"
  my_info :: "string \<rightharpoonup> info"
  clock :: real
  pydot_nodes :: nat

text \<open>\<open>SingletonForCallGraph.__init__\<close>, at a clock reading \<open>t\<close>.\<close>

definition init :: "real \<Rightarrow> registry" where
  "init t = \<lparr>store = [], my_list_all_functions = [], my_list_source_functions = [],
     my_info = Map.empty, clock = t, pydot_nodes = 0\<rparr>"

subsection \<open>The methods of \<open>SingletonForCallGraph\<close>\<close>

text \<open>
  Python's \<open>in\<close> and \<open>list.remove\<close> compare an element \<open>a\<close> with the entry \<open>e\<close> by
  \<open>a is e or a == e\<close>.
\<close>

definition same_entry :: "MethodCall list \<Rightarrow> addr \<Rightarrow> addr \<Rightarrow> bool" where
  "same_entry st e a = (a = e \<or> MethodCall_eq (st ! a) (st ! e))"

definition set_entry :: "addr \<Rightarrow> addr list \<Rightarrow> addr list" where
  "set_entry entry my_list = my_list @ [entry]"

definition exist_entry :: "MethodCall list \<Rightarrow> addr \<Rightarrow> addr list \<Rightarrow> bool" where
  "exist_entry st entry my_list = list_ex (same_entry st entry) my_list"

text \<open>\<open>my_list.remove(entry)\<close> removes the first equal element and raises when there is none.\<close>

fun delete_entry :: "MethodCall list \<Rightarrow> addr \<Rightarrow> addr list \<Rightarrow> exn + addr list" where
  "delete_entry st entry [] = Inl ValueError"
| "delete_entry st entry (a # my_list) =
     (if same_entry st entry a then Inr my_list
      else (case delete_entry st entry my_list of
              Inl x \<Rightarrow> Inl x
            | Inr rest \<Rightarrow> Inr (a # rest)))"

definition edit_callcounter :: "addr \<Rightarrow> registry \<Rightarrow> exn + registry" where
  "edit_callcounter entry s =
     (let nm = name (store s ! entry) in
      case my_info s nm of
        None \<Rightarrow> Inl (KeyError nm)
      | Some i \<Rightarrow> Inr (s\<lparr>my_info := (my_info s)(nm \<mapsto> i\<lparr>callcounter := callcounter i + 1\<rparr>)\<rparr>))"

definition edit_timer :: "addr \<Rightarrow> real \<Rightarrow> registry \<Rightarrow> exn + registry" where
  "edit_timer entry t s =
     (let nm = name (store s ! entry) in
      case my_info s nm of
        None \<Rightarrow> Inl (KeyError nm)
      | Some i \<Rightarrow> Inr (s\<lparr>my_info := (my_info s)(nm \<mapsto> i\<lparr>timer := timer i + t\<rparr>)\<rparr>))"

definition set_source_functions :: "addr \<Rightarrow> addr list \<Rightarrow> registry \<Rightarrow> exn + registry" where
  "set_source_functions entry my_list s =
     (let nm = name (store s ! entry) in
      if length my_list > 0 then
        if name (store s ! last my_list) \<noteq> nm then
          (case my_info s nm of
             None \<Rightarrow> Inl (KeyError nm)
           | Some i \<Rightarrow> Inr (s\<lparr>my_info := (my_info s)(nm \<mapsto>
                         i\<lparr>source_functions := source_functions i @ [last my_list]\<rparr>)\<rparr>))
        else Inr s
      else Inr s)"

definition create :: "addr \<Rightarrow> real \<Rightarrow> addr list \<Rightarrow> registry \<Rightarrow> exn + registry" where
  "create entry t my_list s =
     set_source_functions entry my_list
       (s\<lparr>my_info := (my_info s)(name (store s ! entry) \<mapsto>
            \<lparr>timer = t, callcounter = 1, start = clock s, source_functions = []\<rparr>)\<rparr>)"

subsection \<open>The wrapper\<close>

text \<open>
  Lines 22 to 46 of \<open>function_wrapper_for_node_storage\<close>, before the wrapped function
  runs: a new \<open>MethodCall(name)\<close> object is made, then either counted or registered.
  The result is the new object, or the exception raised, and the state left behind.
\<close>

definition wrapper_before :: "string \<Rightarrow> registry \<Rightarrow> (exn + addr) \<times> registry" where
  "wrapper_before nm s =
     (let methodcall = length (store s);
          s1 = s\<lparr>store := store s @ [\<lparr>name = nm, node = None\<rparr>]\<rparr>
      in if exist_entry (store s1) methodcall (my_list_all_functions s1) then
           (case edit_callcounter methodcall s1 of
              Inl x \<Rightarrow> (Inl x, s1)
            | Inr s2 \<Rightarrow> (Inr methodcall, s2))
         else
           (case create methodcall 0 (my_list_source_functions s1) s1 of
              Inl x \<Rightarrow> (Inl x, s1)
            | Inr s2 \<Rightarrow>
                (let s3 = s2\<lparr>my_list_all_functions :=
                              set_entry methodcall (my_list_all_functions s2)\<rparr>;
                     s4 = s3\<lparr>my_list_source_functions :=
                              set_entry methodcall (my_list_source_functions s3)\<rparr>
                 in (Inr methodcall, s4))))"

text \<open>
  Lines 50 to 65, reached only when the wrapped function has returned: \<open>start_time\<close> is
  the clock reading taken at line 48.
\<close>

definition wrapper_after :: "addr \<Rightarrow> real \<Rightarrow> registry \<Rightarrow> outcome \<times> registry" where
  "wrapper_after methodcall start_time s =
     (let total_time_in_miliseconds = (clock s - start_time) * 1000 in
      case edit_timer methodcall total_time_in_miliseconds s of
        Inl x \<Rightarrow> (Raised x, s)
      | Inr s1 \<Rightarrow>
          if exist_entry (store s1) methodcall (my_list_source_functions s1) then
            (case delete_entry (store s1) methodcall (my_list_source_functions s1) of
               Inl x \<Rightarrow> (Raised x, s1)
             | Inr rest \<Rightarrow> (Returned, s1\<lparr>my_list_source_functions := rest\<rparr>))
          else (Returned, s1))"

text \<open>
  What a decorated function does, as far as the registry can see it: it lets time pass,
  calls decorated functions (with or without a \<open>try ... except: pass\<close> around the call),
  and finally returns or raises. \<open>Call nm b\<close> is one invocation of the decorated function
  whose qualified name \<open>func.__module__ + "." + func.__name__\<close> is \<open>nm\<close> and whose body
  behaves as \<open>b\<close>.
\<close>

datatype call = Call string body
and body =
    Return
  | Raise exn
  | Work real body
  | Invoke call body
  | TryInvoke call body

text \<open>
  \<open>function_wrapper_for_node_storage\<close>. There is no \<open>try\<close> in it: an exception of the
  wrapped function leaves through line 49 and nothing after that line runs.
\<close>

primrec function_wrapper_for_node_storage :: "call \<Rightarrow> registry \<Rightarrow> outcome \<times> registry"
  and run_body :: "body \<Rightarrow> registry \<Rightarrow> outcome \<times> registry" where
  "function_wrapper_for_node_storage (Call nm b) s =
     (case wrapper_before nm s of
        (Inl x, s1) \<Rightarrow> (Raised x, s1)
      | (Inr methodcall, s1) \<Rightarrow>
          (case run_body b s1 of
             (Raised x, s2) \<Rightarrow> (Raised x, s2)
           | (Returned, s2) \<Rightarrow> wrapper_after methodcall (clock s1) s2))"
| "run_body Return s = (Returned, s)"
| "run_body (Raise x) s = (Raised x, s)"
| "run_body (Work d b) s = run_body b (s\<lparr>clock := clock s + d\<rparr>)"
| "run_body (Invoke c b) s =
     (case function_wrapper_for_node_storage c s of
        (Raised x, s1) \<Rightarrow> (Raised x, s1)
      | (Returned, s1) \<Rightarrow> run_body b s1)"
| "run_body (TryInvoke c b) s = run_body b (snd (function_wrapper_for_node_storage c s))"

subsection \<open>\<open>MethodChart.make_graphviz_chart\<close>\<close>

text \<open>
  The loop over \<open>my_list_all_functions\<close>: each object gets a new \<open>pydot.Node\<close>, then
  every source function of its \<open>my_info\<close> entry must already have one. The palette, the
  labels and the picture itself belong to seaborn and pydot and are left out.
\<close>

fun chart_loop :: "addr list \<Rightarrow> registry \<Rightarrow> outcome \<times> registry" where
  "chart_loop [] s = (Returned, s)"
| "chart_loop (methodcall # rest) s =
     (let nm = name (store s ! methodcall) in
      case my_info s nm of
        None \<Rightarrow> (Raised (KeyError nm), s)
      | Some i \<Rightarrow>
          (let s1 = s\<lparr>store := (store s)[methodcall :=
                          (store s ! methodcall)\<lparr>node := Some (pydot_nodes s)\<rparr>],
                      pydot_nodes := Suc (pydot_nodes s)\<rparr>
           in if list_ex (\<lambda>src_node. node (store s1 ! src_node) = None) (source_functions i)
              then (Raised ValueError, s1)
              else chart_loop rest s1))"

text \<open>The list comprehension of the timer values reads every \<open>my_info\<close> entry first.\<close>

definition make_graphviz_chart :: "registry \<Rightarrow> outcome \<times> registry" where
  "make_graphviz_chart s =
     (case filter (\<lambda>item. my_info s (name (store s ! item)) = None) (my_list_all_functions s) of
        item # _ \<Rightarrow> (Raised (KeyError (name (store s ! item))), s)
      | [] \<Rightarrow> chart_loop (my_list_all_functions s) s)"

subsection \<open>Programs that use the module\<close>

text \<open>
  A sequential program is a list of top-level events: calls of decorated functions and
  calls of \<open>make_graphviz_chart\<close>. An exception that reaches the top level is caught there
  and the program goes on.
\<close>

datatype event = Invocation call | Chart

fun run :: "event list \<Rightarrow> registry \<Rightarrow> registry" where
  "run [] s = s"
| "run (Invocation c # es) s = run es (snd (function_wrapper_for_node_storage c s))"
| "run (Chart # es) s = run es (snd (make_graphviz_chart s))"

subsection \<open>Observations\<close>

definition names :: "registry \<Rightarrow> addr list \<Rightarrow> string list" where
  "names s xs = map (\<lambda>a. name (store s ! a)) xs"

definition all_names :: "registry \<Rightarrow> string list" where
  "all_names s = names s (my_list_all_functions s)"

definition stack_names :: "registry \<Rightarrow> string list" where
  "stack_names s = names s (my_list_source_functions s)"

definition callcounter_of :: "registry \<Rightarrow> string \<Rightarrow> int" where
  "callcounter_of s nm = (case my_info s nm of None \<Rightarrow> 0 | Some i \<Rightarrow> callcounter i)"

definition timer_of :: "registry \<Rightarrow> string \<Rightarrow> real" where
  "timer_of s nm = (case my_info s nm of None \<Rightarrow> 0 | Some i \<Rightarrow> timer i)"

text \<open>The \<open>source_functions\<close> list of a name, as the list of objects it holds.\<close>

definition sources_of :: "registry \<Rightarrow> string \<Rightarrow> addr list option" where
  "sources_of s nm = map_option source_functions (my_info s nm)"

text \<open>
  What \<open>set_source_functions\<close> appends for a new entry \<open>nm\<close>: the last object of
  \<open>my_list_source_functions\<close> when there is one and its name is not \<open>nm\<close>.
\<close>

definition top_source :: "registry \<Rightarrow> string \<Rightarrow> addr list" where
  "top_source s nm =
     (if my_list_source_functions s \<noteq> [] \<and>
         name (store s ! last (my_list_source_functions s)) \<noteq> nm
      then [last (my_list_source_functions s)] else [])"

text \<open>Every object the two lists hold is in the store.\<close>

definition addrs_ok :: "registry \<Rightarrow> bool" where
  "addrs_ok s = list_all (\<lambda>a. a < length (store s))
     (my_list_all_functions s @ my_list_source_functions s)"

subsection \<open>Traces of a call, read off the program alone\<close>

text \<open>
  How an invocation ends when the wrapper itself raises nothing, and the names of the
  invocations it starts, in order. A call that raises cuts the rest of a body short
  unless the body catches it.
\<close>

primrec call_outcome :: "call \<Rightarrow> outcome" and body_outcome :: "body \<Rightarrow> outcome" where
  "call_outcome (Call nm b) = body_outcome b"
| "body_outcome Return = Returned"
| "body_outcome (Raise x) = Raised x"
| "body_outcome (Work d b) = body_outcome b"
| "body_outcome (Invoke c b) =
     (case call_outcome c of Raised x \<Rightarrow> Raised x | Returned \<Rightarrow> body_outcome b)"
| "body_outcome (TryInvoke c b) = body_outcome b"

primrec invocations :: "call \<Rightarrow> string list" and body_invocations :: "body \<Rightarrow> string list" where
  "invocations (Call nm b) = nm # body_invocations b"
| "body_invocations Return = []"
| "body_invocations (Raise x) = []"
| "body_invocations (Work d b) = body_invocations b"
| "body_invocations (Invoke c b) =
     invocations c @ (case call_outcome c of Raised x \<Rightarrow> [] | Returned \<Rightarrow> body_invocations b)"
| "body_invocations (TryInvoke c b) = invocations c @ body_invocations b"

text \<open>The invocations that ran to their \<open>return\<close>, among those started.\<close>

primrec returned_invocations :: "call \<Rightarrow> string list"
  and body_returned_invocations :: "body \<Rightarrow> string list" where
  "returned_invocations (Call nm b) =
     body_returned_invocations b @ (case body_outcome b of Raised x \<Rightarrow> [] | Returned \<Rightarrow> [nm])"
| "body_returned_invocations Return = []"
| "body_returned_invocations (Raise x) = []"
| "body_returned_invocations (Work d b) = body_returned_invocations b"
| "body_returned_invocations (Invoke c b) =
     returned_invocations c @
     (case call_outcome c of Raised x \<Rightarrow> [] | Returned \<Rightarrow> body_returned_invocations b)"
| "body_returned_invocations (TryInvoke c b) =
     returned_invocations c @ body_returned_invocations b"

text \<open>A list without its repetitions, each element where it first stands.\<close>

definition first_occurrences :: "'a list \<Rightarrow> 'a list" where
  "first_occurrences xs = rev (remdups (rev xs))"

subsection \<open>States in which nothing has been rendered\<close>

text \<open>
  The states the wrapper alone produces from a new singleton: every registered object is
  in the store and still has \<open>node = None\<close>, no two registered objects share a name, the
  objects of \<open>my_list_source_functions\<close> are registered ones, each once, and \<open>my_info\<close>
  has exactly the registered names as keys.
\<close>

definition tracking_inv :: "registry \<Rightarrow> bool" where
  "tracking_inv s \<longleftrightarrow>
     (\<forall>a\<in>set (my_list_all_functions s). a < length (store s) \<and> node (store s ! a) = None) \<and>
     distinct (all_names s) \<and>
     distinct (my_list_source_functions s) \<and>
     set (my_list_source_functions s) \<subseteq> set (my_list_all_functions s) \<and>
     dom (my_info s) = set (all_names s)"

text \<open>
  \<open>advances xs s s'\<close>: going from \<open>s\<close> to \<open>s'\<close> started the invocations \<open>xs\<close> and
  nothing else happened to the bookkeeping.
\<close>

definition advances :: "string list \<Rightarrow> registry \<Rightarrow> registry \<Rightarrow> bool" where
  "advances xs s s' \<longleftrightarrow>
     tracking_inv s' \<and>
     (\<exists>ys. store s' = store s @ ys) \<and>
     all_names s' = first_occurrences (all_names s @ xs) \<and>
     (\<forall>n. callcounter_of s' n = callcounter_of s n + int (count_list xs n)) \<and>
     (\<forall>n\<in>set (all_names s). sources_of s' n = sources_of s n)"

subsection \<open>The programs of the test suite\<close>

text \<open>
  \<open>test/test_store_funcs.py\<close>: two decorated methods of a module \<open>m\<close>.
  \<open>print_value\<close> calls no decorated function; \<open>sum_recursive(a, b)\<close> calls
  \<open>print_value\<close> and, while \<open>b > 0\<close>, itself with \<open>a + 1\<close> and \<open>b - 1\<close>.
\<close>

definition print_value :: "string \<Rightarrow> call" where
  "print_value m = Call (m @ ''.print_value'') Return"

function sum_recursive :: "string \<Rightarrow> int \<Rightarrow> int \<Rightarrow> call" where
  "sum_recursive m a b =
     Call (m @ ''.sum_recursive'')
       (if b > 0 then
          Invoke (print_value m) (Invoke (sum_recursive m (a + 1) (b - 1)) Return)
        else Invoke (print_value m) Return)"
  by pat_completeness auto
termination
  by (relation "measure (\<lambda>(m, a, b). nat b)") auto

declare sum_recursive.simps [simp del]

text \<open>A decorated function that calls itself \<open>k\<close> times before it returns.\<close>

primrec self_recursive :: "string \<Rightarrow> nat \<Rightarrow> call" where
  "self_recursive nm 0 = Call nm Return"
| "self_recursive nm (Suc k) = Call nm (Invoke (self_recursive nm k) Return)"

section \<open>Lemmas about the methods and the wrapper\<close>

subsection \<open>Before the call: counting or registering\<close>

text \<open>
  The new object is compared with objects that were in the store before it, so the
  membership test comes down to: some listed object has the same name and no node.
\<close>

lemma MethodCall_eq_iff: "MethodCall_eq x y \<longleftrightarrow> x = y"
  by (cases x; cases y) (simp add: MethodCall_eq_def)

lemma same_entry_fresh:
  "a < length st \<Longrightarrow> same_entry (st @ [v]) (length st) a \<longleftrightarrow> st ! a = v"
  by (simp add: same_entry_def MethodCall_eq_iff nth_append)

lemma exist_entry_fresh:
  "\<forall>a\<in>set xs. a < length st \<Longrightarrow>
   exist_entry (st @ [v]) (length st) xs \<longleftrightarrow> (\<exists>a\<in>set xs. st ! a = v)"
  by (induction xs) (auto simp: exist_entry_def same_entry_fresh)

lemma wrapper_before_registered:
  assumes "\<forall>a\<in>set (my_list_all_functions s). a < length (store s)"
    and "\<exists>a\<in>set (my_list_all_functions s). store s ! a = \<lparr>name = nm, node = None\<rparr>"
    and "my_info s nm = Some i"
  shows "wrapper_before nm s =
    (Inr (length (store s)),
     s\<lparr>store := store s @ [\<lparr>name = nm, node = None\<rparr>],
       my_info := (my_info s)(nm \<mapsto> i\<lparr>callcounter := callcounter i + 1\<rparr>)\<rparr>)"
  using assms
  by (simp add: wrapper_before_def Let_def exist_entry_fresh edit_callcounter_def)

lemma wrapper_before_registered_KeyError:
  assumes "\<forall>a\<in>set (my_list_all_functions s). a < length (store s)"
    and "\<exists>a\<in>set (my_list_all_functions s). store s ! a = \<lparr>name = nm, node = None\<rparr>"
    and "my_info s nm = None"
  shows "wrapper_before nm s =
    (Inl (KeyError nm), s\<lparr>store := store s @ [\<lparr>name = nm, node = None\<rparr>]\<rparr>)"
  using assms
  by (simp add: wrapper_before_def Let_def exist_entry_fresh edit_callcounter_def)

lemma wrapper_before_new:
  assumes "\<forall>a\<in>set (my_list_all_functions s). a < length (store s)"
    and "\<forall>a\<in>set (my_list_source_functions s). a < length (store s)"
    and "\<not> (\<exists>a\<in>set (my_list_all_functions s). store s ! a = \<lparr>name = nm, node = None\<rparr>)"
  shows "wrapper_before nm s =
    (Inr (length (store s)),
     s\<lparr>store := store s @ [\<lparr>name = nm, node = None\<rparr>],
       my_info := (my_info s)(nm \<mapsto>
          \<lparr>timer = 0, callcounter = 1, start = clock s, source_functions = top_source s nm\<rparr>),
       my_list_all_functions := my_list_all_functions s @ [length (store s)],
       my_list_source_functions := my_list_source_functions s @ [length (store s)]\<rparr>)"
proof -
  have "my_list_source_functions s \<noteq> [] \<Longrightarrow> last (my_list_source_functions s) < length (store s)"
    using assms(2) by simp
  then show ?thesis
    using assms(1,3)
    by (simp add: wrapper_before_def Let_def exist_entry_fresh create_def
        set_source_functions_def set_entry_def top_source_def nth_append)
qed

subsection \<open>The invariant and the step before the call\<close>

lemma tracking_inv_init: "tracking_inv (init t)"
  by (simp add: tracking_inv_def init_def all_names_def names_def)

lemma inv_registered_iff:
  assumes "tracking_inv s"
  shows "(\<exists>a\<in>set (my_list_all_functions s). store s ! a = \<lparr>name = nm, node = None\<rparr>)
         \<longleftrightarrow> nm \<in> set (all_names s)"
proof
  assume "\<exists>a\<in>set (my_list_all_functions s). store s ! a = \<lparr>name = nm, node = None\<rparr>"
  then obtain a where "a \<in> set (my_list_all_functions s)" "store s ! a = \<lparr>name = nm, node = None\<rparr>"
    by blast
  then have "name (store s ! a) = nm" by simp
  with \<open>a \<in> _\<close> show "nm \<in> set (all_names s)"
    by (auto simp: all_names_def names_def)
next
  assume "nm \<in> set (all_names s)"
  then obtain a where a: "a \<in> set (my_list_all_functions s)" "name (store s ! a) = nm"
    by (auto simp: all_names_def names_def)
  with assms have "node (store s ! a) = None" by (simp add: tracking_inv_def)
  with a have "store s ! a = \<lparr>name = nm, node = None\<rparr>" by (cases "store s ! a") simp
  with a show "\<exists>a\<in>set (my_list_all_functions s). store s ! a = \<lparr>name = nm, node = None\<rparr>"
    by blast
qed

lemma inv_addrs:
  assumes "tracking_inv s"
  shows "\<forall>a\<in>set (my_list_all_functions s). a < length (store s)"
    and "\<forall>a\<in>set (my_list_source_functions s). a < length (store s)"
  using assms by (auto simp: tracking_inv_def)

lemma names_append_store:
  "\<forall>a\<in>set xs. a < length (store s) \<Longrightarrow> store s' = store s @ ys \<Longrightarrow> names s' xs = names s xs"
  by (simp add: names_def nth_append)

lemma wrapper_before_inv_registered:
  assumes inv: "tracking_inv s" and reg: "nm \<in> set (all_names s)"
  shows "\<exists>i. my_info s nm = Some i \<and> wrapper_before nm s =
    (Inr (length (store s)),
     s\<lparr>store := store s @ [\<lparr>name = nm, node = None\<rparr>],
       my_info := (my_info s)(nm \<mapsto> i\<lparr>callcounter := callcounter i + 1\<rparr>)\<rparr>)"
proof -
  from inv reg have "nm \<in> dom (my_info s)" by (simp add: tracking_inv_def)
  then obtain i where i: "my_info s nm = Some i" by blast
  from wrapper_before_registered[OF inv_addrs(1)[OF inv] _ i] inv_registered_iff[OF inv, of nm] reg i
  show ?thesis by blast
qed

lemma wrapper_before_inv_new:
  assumes inv: "tracking_inv s" and new: "nm \<notin> set (all_names s)"
  shows "wrapper_before nm s =
    (Inr (length (store s)),
     s\<lparr>store := store s @ [\<lparr>name = nm, node = None\<rparr>],
       my_info := (my_info s)(nm \<mapsto>
          \<lparr>timer = 0, callcounter = 1, start = clock s, source_functions = top_source s nm\<rparr>),
       my_list_all_functions := my_list_all_functions s @ [length (store s)],
       my_list_source_functions := my_list_source_functions s @ [length (store s)]\<rparr>)"
  using wrapper_before_new[OF inv_addrs[OF inv]] inv_registered_iff[OF inv, of nm] new
  by blast

lemma wrapper_before_inv:
  assumes inv: "tracking_inv s" and w: "wrapper_before nm s = (r, s')"
  shows "tracking_inv s'"
proof (cases "nm \<in> set (all_names s)")
  case True
  from wrapper_before_inv_registered[OF inv True] w obtain i where
    i: "my_info s nm = Some i" and
    s': "s' = s\<lparr>store := store s @ [\<lparr>name = nm, node = None\<rparr>],
       my_info := (my_info s)(nm \<mapsto> i\<lparr>callcounter := callcounter i + 1\<rparr>)\<rparr>"
    by auto
  have n: "\<And>xs. \<forall>a\<in>set xs. a < length (store s) \<Longrightarrow> names s' xs = names s xs"
    by (rule names_append_store) (simp_all add: s')
  have "all_names s' = all_names s"
    using n[OF inv_addrs(1)[OF inv]] by (simp add: all_names_def s')
  moreover have "dom (my_info s') = dom (my_info s)"
    using i by (auto simp: s')
  ultimately show ?thesis
    using inv by (auto simp: tracking_inv_def s' nth_append)
next
  case False
  note s' = wrapper_before_inv_new[OF inv False]
  let ?e = "length (store s)"
  from s' w have s'': "s' = s\<lparr>store := store s @ [\<lparr>name = nm, node = None\<rparr>],
       my_info := (my_info s)(nm \<mapsto>
          \<lparr>timer = 0, callcounter = 1, start = clock s, source_functions = top_source s nm\<rparr>),
       my_list_all_functions := my_list_all_functions s @ [length (store s)],
       my_list_source_functions := my_list_source_functions s @ [length (store s)]\<rparr>"
    by simp
  have n: "\<And>xs. \<forall>a\<in>set xs. a < length (store s) \<Longrightarrow> names s' xs = names s xs"
    by (rule names_append_store) (simp_all add: s'')
  have an: "all_names s' = all_names s @ [nm]"
    using n[OF inv_addrs(1)[OF inv]] by (simp add: all_names_def s'' names_def)
  have fresh: "?e \<notin> set (my_list_all_functions s)" "?e \<notin> set (my_list_source_functions s)"
    using inv_addrs[OF inv] by auto
  show ?thesis
    unfolding tracking_inv_def an
    using inv False fresh by (auto simp: tracking_inv_def s'' nth_append)
qed

subsection \<open>After the call: the timer and the active stack\<close>

text \<open>
  While no object has a node, two objects are equal exactly when their names are, and
  \<open>list.remove\<close> takes out the one entry of that name.
\<close>

lemma same_entry_unrendered:
  "node (st ! a) = None \<Longrightarrow> node (st ! e) = None \<Longrightarrow>
   same_entry st e a \<longleftrightarrow> name (st ! a) = name (st ! e)"
  by (cases "st ! a"; cases "st ! e") (auto simp: same_entry_def MethodCall_eq_def)

lemma exist_entry_unrendered:
  "\<forall>a\<in>set xs. node (st ! a) = None \<Longrightarrow> node (st ! e) = None \<Longrightarrow>
   exist_entry st e xs \<longleftrightarrow> name (st ! e) \<in> set (map (\<lambda>a. name (st ! a)) xs)"
  by (induction xs) (auto simp: exist_entry_def same_entry_unrendered)

lemma delete_entry_unrendered:
  "\<forall>a\<in>set xs. node (st ! a) = None \<Longrightarrow> node (st ! e) = None \<Longrightarrow>
   distinct (map (\<lambda>a. name (st ! a)) xs) \<Longrightarrow>
   name (st ! e) \<in> set (map (\<lambda>a. name (st ! a)) xs) \<Longrightarrow>
   delete_entry st e xs = Inr (filter (\<lambda>a. name (st ! a) \<noteq> name (st ! e)) xs)"
proof (induction xs)
  case Nil
  then show ?case by simp
next
  case (Cons a xs)
  show ?case
  proof (cases "name (st ! a) = name (st ! e)")
    case True
    with Cons.prems have "filter (\<lambda>a. name (st ! a) \<noteq> name (st ! e)) xs = xs"
      by (auto simp: filter_id_conv image_iff)
    with True Cons.prems show ?thesis by (simp add: same_entry_unrendered)
  next
    case False
    with Cons show ?thesis by (simp add: same_entry_unrendered)
  qed
qed

lemma inv_stack_names_distinct:
  assumes "tracking_inv s"
  shows "distinct (stack_names s)"
proof -
  from assms have "inj_on (\<lambda>a. name (store s ! a)) (set (my_list_all_functions s))"
    by (simp add: tracking_inv_def all_names_def names_def distinct_map)
  then have "inj_on (\<lambda>a. name (store s ! a)) (set (my_list_source_functions s))"
    using assms by (auto simp: tracking_inv_def intro: inj_on_subset)
  with assms show ?thesis
    by (simp add: stack_names_def names_def distinct_map tracking_inv_def)
qed

lemma wrapper_after_inv:
  assumes inv: "tracking_inv s" and e: "e < length (store s)"
    and obj: "store s ! e = \<lparr>name = nm, node = None\<rparr>"
    and reg: "nm \<in> set (all_names s)"
  shows "\<exists>i. my_info s nm = Some i \<and> wrapper_after e t0 s =
    (Returned,
     s\<lparr>my_info := (my_info s)(nm \<mapsto> i\<lparr>timer := timer i + (clock s - t0) * 1000\<rparr>),
       my_list_source_functions :=
         filter (\<lambda>a. name (store s ! a) \<noteq> nm) (my_list_source_functions s)\<rparr>)"
proof -
  from inv reg have "nm \<in> dom (my_info s)" by (simp add: tracking_inv_def)
  then obtain i where i: "my_info s nm = Some i" by blast
  have nodes: "\<forall>a\<in>set (my_list_source_functions s). node (store s ! a) = None"
    using inv by (auto simp: tracking_inv_def)
  have ne: "node (store s ! e) = None" "name (store s ! e) = nm" using obj by simp_all
  have d: "distinct (map (\<lambda>a. name (store s ! a)) (my_list_source_functions s))"
    using inv_stack_names_distinct[OF inv] by (simp add: stack_names_def names_def)
  show ?thesis
  proof (cases "nm \<in> set (map (\<lambda>a. name (store s ! a)) (my_list_source_functions s))")
    case True
    with i nodes ne d show ?thesis
      by (simp add: wrapper_after_def edit_timer_def Let_def exist_entry_unrendered
          delete_entry_unrendered)
  next
    case False
    then have "filter (\<lambda>a. name (store s ! a) \<noteq> nm) (my_list_source_functions s)
               = my_list_source_functions s"
      by (auto simp: filter_id_conv)
    with False i nodes ne show ?thesis
      by (simp add: wrapper_after_def edit_timer_def Let_def exist_entry_unrendered)
  qed
qed

lemma tracking_inv_after:
  assumes inv: "tracking_inv s" and i: "my_info s nm = Some i"
  shows "tracking_inv (s\<lparr>my_info := (my_info s)(nm \<mapsto> j),
            my_list_source_functions := filter P (my_list_source_functions s)\<rparr>)"
proof -
  have "dom ((my_info s)(nm \<mapsto> j)) = dom (my_info s)" using i by auto
  then show ?thesis
    using inv by (auto simp: tracking_inv_def all_names_def names_def)
qed

lemma tracking_inv_clock:
  "tracking_inv (s\<lparr>clock := t\<rparr>) = tracking_inv s"
  by (simp add: tracking_inv_def all_names_def names_def)

subsection \<open>Steps compose\<close>

lemma remdups_drop_early: "x \<in> set zs \<Longrightarrow> remdups (ys @ x # zs) = remdups (ys @ zs)"
  by (induction ys) auto

lemma first_occurrences_distinct [simp]: "distinct xs \<Longrightarrow> first_occurrences xs = xs"
  by (simp add: first_occurrences_def distinct_remdups_id)

lemma first_occurrences_snoc:
  "first_occurrences (xs @ [x]) = (if x \<in> set xs then first_occurrences xs else first_occurrences xs @ [x])"
  using remdups_drop_early[of x "rev xs" "[]"]
  by (auto simp: first_occurrences_def)

lemma set_first_occurrences [simp]: "set (first_occurrences xs) = set xs"
  by (simp add: first_occurrences_def)

lemma distinct_first_occurrences [simp]: "distinct (first_occurrences xs)"
  by (simp add: first_occurrences_def)

lemma first_occurrences_append:
  "first_occurrences (first_occurrences xs @ ys) = first_occurrences (xs @ ys)"
proof (induction ys rule: rev_induct)
  case Nil
  then show ?case by simp
next
  case (snoc y ys)
  have "first_occurrences ((first_occurrences xs @ ys) @ [y]) = first_occurrences ((xs @ ys) @ [y])"
    unfolding first_occurrences_snoc using snoc by simp
  then show ?case by simp
qed

lemma advances_refl: "tracking_inv s \<Longrightarrow> advances [] s s"
  by (simp add: advances_def tracking_inv_def)

lemma advances_trans:
  assumes "advances xs s s1" and "advances ys s1 s2"
  shows "advances (xs @ ys) s s2"
proof -
  have "set (all_names s) \<subseteq> set (all_names s1)"
    using assms(1) by (auto simp: advances_def)
  moreover have "first_occurrences (all_names s1 @ ys) = first_occurrences (all_names s @ xs @ ys)"
    using assms(1) first_occurrences_append[of "all_names s @ xs" ys] by (simp add: advances_def)
  ultimately show ?thesis
    using assms by (auto simp: advances_def)
qed

lemma advances_clock: "tracking_inv s \<Longrightarrow> advances [] s (s\<lparr>clock := t\<rparr>)"
  by (simp add: advances_def tracking_inv_def all_names_def names_def callcounter_of_def sources_of_def)

lemma advances_before:
  assumes inv: "tracking_inv s" and w: "wrapper_before nm s = (r, s')"
  shows "advances [nm] s s'"
proof (cases "nm \<in> set (all_names s)")
  case True
  from wrapper_before_inv_registered[OF inv True] w obtain i where
    i: "my_info s nm = Some i" and
    s': "s' = s\<lparr>store := store s @ [\<lparr>name = nm, node = None\<rparr>],
       my_info := (my_info s)(nm \<mapsto> i\<lparr>callcounter := callcounter i + 1\<rparr>)\<rparr>"
    by auto
  have "names s' (my_list_all_functions s) = names s (my_list_all_functions s)"
    by (rule names_append_store) (use inv_addrs(1)[OF inv] in \<open>simp_all add: s'\<close>)
  then have "all_names s' = all_names s"
    by (simp add: all_names_def s')
  then show ?thesis
    unfolding advances_def using wrapper_before_inv[OF inv w] True inv i
    by (auto simp: tracking_inv_def s' callcounter_of_def sources_of_def first_occurrences_snoc)
next
  case False
  from wrapper_before_inv_new[OF inv False] w have s': "s' = s\<lparr>store := store s @ [\<lparr>name = nm, node = None\<rparr>],
       my_info := (my_info s)(nm \<mapsto>
          \<lparr>timer = 0, callcounter = 1, start = clock s, source_functions = top_source s nm\<rparr>),
       my_list_all_functions := my_list_all_functions s @ [length (store s)],
       my_list_source_functions := my_list_source_functions s @ [length (store s)]\<rparr>"
    by simp
  have "names s' (my_list_all_functions s) = names s (my_list_all_functions s)"
    by (rule names_append_store) (use inv_addrs(1)[OF inv] in \<open>simp_all add: s'\<close>)
  then have an: "all_names s' = all_names s @ [nm]"
    by (simp add: all_names_def s' names_def)
  from inv False have "my_info s nm = None" by (auto simp: tracking_inv_def)
  then show ?thesis
    unfolding advances_def using wrapper_before_inv[OF inv w] False inv an
    by (auto simp: tracking_inv_def s' callcounter_of_def sources_of_def first_occurrences_snoc)
qed

lemma advances_after:
  assumes inv: "tracking_inv s" and e: "e < length (store s)"
    and obj: "store s ! e = \<lparr>name = nm, node = None\<rparr>"
    and reg: "nm \<in> set (all_names s)"
  shows "fst (wrapper_after e t0 s) = Returned \<and> advances [] s (snd (wrapper_after e t0 s))"
proof -
  from wrapper_after_inv[OF assms, of t0] obtain i where
    i: "my_info s nm = Some i" and
    w: "wrapper_after e t0 s =
    (Returned,
     s\<lparr>my_info := (my_info s)(nm \<mapsto> i\<lparr>timer := timer i + (clock s - t0) * 1000\<rparr>),
       my_list_source_functions :=
         filter (\<lambda>a. name (store s ! a) \<noteq> nm) (my_list_source_functions s)\<rparr>)"
    by blast
  have "tracking_inv (snd (wrapper_after e t0 s))"
    unfolding w snd_conv by (rule tracking_inv_after[OF inv i])
  then show ?thesis
    using i inv unfolding advances_def
    by (auto simp: w all_names_def names_def callcounter_of_def sources_of_def tracking_inv_def)
qed

subsection \<open>Every invocation advances the bookkeeping by its own trace\<close>

lemma wrapper_before_object:
  assumes inv: "tracking_inv s" and w: "wrapper_before nm s = (r, s')"
  shows "r = Inr (length (store s)) \<and> store s' = store s @ [\<lparr>name = nm, node = None\<rparr>] \<and>
         nm \<in> set (all_names s') \<and> clock s' = clock s"
proof (cases "nm \<in> set (all_names s)")
  case True
  from wrapper_before_inv_registered[OF inv True] w advances_before[OF inv w] True
  show ?thesis by (auto simp: advances_def)
next
  case False
  from wrapper_before_inv_new[OF inv False] w advances_before[OF inv w]
  show ?thesis by (auto simp: advances_def)
qed

lemma run_advances:
  "tracking_inv s \<Longrightarrow>
     fst (function_wrapper_for_node_storage c s) = call_outcome c \<and>
     advances (invocations c) s (snd (function_wrapper_for_node_storage c s))"
  "tracking_inv s \<Longrightarrow>
     fst (run_body b s) = body_outcome b \<and>
     advances (body_invocations b) s (snd (run_body b s))"
proof (induction c and b arbitrary: s and s)
  case (Call nm b)
  obtain r s1 where w: "wrapper_before nm s = (r, s1)" by (cases "wrapper_before nm s")
  note o = wrapper_before_object[OF Call.prems w]
  note a1 = advances_before[OF Call.prems w]
  then have inv1: "tracking_inv s1" by (simp add: advances_def)
  obtain r2 s2 where b: "run_body b s1 = (r2, s2)" by (cases "run_body b s1")
  from Call.IH[OF inv1] b have r2: "r2 = body_outcome b" and a2: "advances (body_invocations b) s1 s2"
    by simp_all
  from advances_trans[OF a1 a2] have a12: "advances (nm # body_invocations b) s s2" by simp
  show ?case
  proof (cases r2)
    case Returned
    from a2 obtain ys where ys: "store s2 = store s1 @ ys" by (auto simp: advances_def)
    have e: "length (store s) < length (store s2)"
      and obj: "store s2 ! length (store s) = \<lparr>name = nm, node = None\<rparr>"
      using o ys by (simp_all add: nth_append)
    have reg: "nm \<in> set (all_names s2)" using a2 o by (auto simp: advances_def)
    have inv2: "tracking_inv s2" using a2 by (simp add: advances_def)
    from advances_after[OF inv2 e obj reg, of "clock s1"]
    have "fst (wrapper_after (length (store s)) (clock s1) s2) = Returned"
      and a3: "advances [] s2 (snd (wrapper_after (length (store s)) (clock s1) s2))"
      by simp_all
    with advances_trans[OF a12 a3] w o b Returned r2 show ?thesis
      by (simp add: split_beta)
  next
    case (Raised x)
    with r2 have bo: "body_outcome b = Raised x" by simp
    from b r2 bo have "run_body b s1 = (Raised x, s2)" by simp
    with w o a12 bo show ?thesis by simp
  qed
next
  case Return
  then show ?case by (simp add: advances_refl)
next
  case (Raise x)
  then show ?case by (simp add: advances_refl)
next
  case (Work d b)
  from advances_clock[OF Work.prems] have a1: "advances [] s (s\<lparr>clock := clock s + d\<rparr>)" .
  then have "tracking_inv (s\<lparr>clock := clock s + d\<rparr>)" by (simp add: advances_def)
  from Work.IH[OF this] advances_trans[OF a1] show ?case by simp
next
  case (Invoke c b)
  from Invoke.IH(1)[OF Invoke.prems]
  have r1: "fst (function_wrapper_for_node_storage c s) = call_outcome c"
    and a1: "advances (invocations c) s (snd (function_wrapper_for_node_storage c s))"
    by simp_all
  then have inv1: "tracking_inv (snd (function_wrapper_for_node_storage c s))"
    by (simp add: advances_def)
  show ?case
  proof (cases "call_outcome c")
    case Returned
    with r1 a1 Invoke.IH(2)[OF inv1] advances_trans[OF a1] show ?thesis
      by (simp add: split_beta)
  next
    case (Raised x)
    with r1 a1 show ?thesis by (simp add: split_beta)
  qed
next
  case (TryInvoke c b)
  from TryInvoke.IH(1)[OF TryInvoke.prems]
  have a1: "advances (invocations c) s (snd (function_wrapper_for_node_storage c s))"
    by simp
  then have inv1: "tracking_inv (snd (function_wrapper_for_node_storage c s))"
    by (simp add: advances_def)
  from TryInvoke.IH(2)[OF inv1] advances_trans[OF a1] show ?case by simp
qed

subsection \<open>Whole invocations and histories\<close>

lemma run_invocations_advances:
  "tracking_inv s \<Longrightarrow>
   advances (concat (map invocations cs)) s (run (map Invocation cs) s)"
proof (induction cs arbitrary: s)
  case Nil
  then show ?case by (simp add: advances_refl)
next
  case (Cons c cs)
  from run_advances(1)[OF Cons.prems, of c]
  have a1: "advances (invocations c) s (snd (function_wrapper_for_node_storage c s))" by simp
  then have "tracking_inv (snd (function_wrapper_for_node_storage c s))"
    by (simp add: advances_def)
  from advances_trans[OF a1 Cons.IH[OF this]] show ?case by simp
qed

lemma callcounter_of_init [simp]: "callcounter_of (init t) n = 0"
  by (simp add: callcounter_of_def init_def)

lemma all_names_init [simp]: "all_names (init t) = []"
  by (simp add: all_names_def names_def init_def)

lemma invocations_self_recursive: "invocations (self_recursive nm k) = replicate (Suc k) nm"
  and call_outcome_self_recursive: "call_outcome (self_recursive nm k) = Returned"
  by (induction k) (simp_all add: replicate_append_same)

lemma remdups_replicate_Suc: "remdups (replicate (Suc k) x) = [x]"
  by (induction k) simp_all

lemma first_occurrences_replicate: "first_occurrences (replicate (Suc k) x) = [x]"
  unfolding first_occurrences_def rev_replicate remdups_replicate_Suc by simp

lemma inv_addrs_ok: "tracking_inv s \<Longrightarrow> addrs_ok s"
  by (auto simp: tracking_inv_def addrs_ok_def list_all_iff)






lemma addrs_okD:
  assumes "addrs_ok s"
  shows "\<forall>a\<in>set (my_list_all_functions s). a < length (store s)"
    and "\<forall>a\<in>set (my_list_source_functions s). a < length (store s)"
  using assms by (auto simp: addrs_ok_def list_all_iff)



lemma invocations_sum_recursive_1_1:
  "invocations (sum_recursive m 1 1) =
     [m @ ''.sum_recursive'', m @ ''.print_value'', m @ ''.sum_recursive'', m @ ''.print_value'']"
  by (simp add: sum_recursive.simps[of m 1 1] sum_recursive.simps[of m 2 0] print_value_def)

subsection \<open>Rendering\<close>

lemma chart_loop_effect:
  "chart_loop xs s = (Returned, s') \<Longrightarrow>
     length (store s') = length (store s) \<and>
     my_list_all_functions s' = my_list_all_functions s \<and>
     my_list_source_functions s' = my_list_source_functions s \<and>
     my_info s' = my_info s \<and> clock s' = clock s \<and>
     (\<forall>a. name (store s' ! a) = name (store s ! a)) \<and>
     (\<forall>a. node (store s ! a) \<noteq> None \<longrightarrow> node (store s' ! a) \<noteq> None) \<and>
     (\<forall>a\<in>set xs. a < length (store s) \<longrightarrow> node (store s' ! a) \<noteq> None)"
proof (induction xs arbitrary: s)
  case Nil
  then show ?case by simp
next
  case (Cons m xs)
  from Cons.prems obtain i where i: "my_info s (name (store s ! m)) = Some i"
    by (cases "my_info s (name (store s ! m))") (simp_all add: Let_def)
  define s1 where "s1 = s\<lparr>store := (store s)[m := (store s ! m)\<lparr>node := Some (pydot_nodes s)\<rparr>],
                      pydot_nodes := Suc (pydot_nodes s)\<rparr>"
  from Cons.prems i have rest: "chart_loop xs s1 = (Returned, s')"
    by (simp add: s1_def Let_def split: if_splits)
  have nm: "name (store s1 ! a) = name (store s ! a)" for a
    by (cases "m < length (store s)"; cases "a = m")
      (simp_all add: s1_def list_update_beyond not_less)
  have nd: "node (store s ! a) \<noteq> None \<Longrightarrow> node (store s1 ! a) \<noteq> None" for a
    by (cases "m < length (store s)"; cases "a = m")
      (simp_all add: s1_def list_update_beyond not_less)
  have m: "m < length (store s) \<Longrightarrow> node (store s1 ! m) \<noteq> None"
    by (simp add: s1_def)
  have s1: "length (store s1) = length (store s)"
    "my_list_all_functions s1 = my_list_all_functions s"
    "my_list_source_functions s1 = my_list_source_functions s"
    "my_info s1 = my_info s" "clock s1 = clock s"
    by (simp_all add: s1_def)
  from Cons.IH[OF rest] s1 nm nd m show ?case
    by auto
qed

lemma make_graphviz_chart_effect:
  assumes "make_graphviz_chart s = (Returned, s')"
  shows "length (store s') = length (store s)"
    and "my_list_all_functions s' = my_list_all_functions s"
    and "my_list_source_functions s' = my_list_source_functions s"
    and "clock s' = clock s"
    and "all_names s' = all_names s"
    and "\<forall>a\<in>set (my_list_all_functions s). a < length (store s) \<longrightarrow> node (store s' ! a) \<noteq> None"
proof -
  from assms have c: "chart_loop (my_list_all_functions s) s = (Returned, s')"
    by (simp add: make_graphviz_chart_def split: list.splits)
  note e = chart_loop_effect[OF c]
  from e show "length (store s') = length (store s)"
    and "my_list_all_functions s' = my_list_all_functions s"
    and "my_list_source_functions s' = my_list_source_functions s"
    and "clock s' = clock s"
    and "\<forall>a\<in>set (my_list_all_functions s). a < length (store s) \<longrightarrow> node (store s' ! a) \<noteq> None"
    by blast+
  from e show "all_names s' = all_names s"
    by (simp add: all_names_def names_def)
qed

section \<open>The claims\<close>

subsection \<open>The active stack is pushed at registration only\<close>




subsection \<open>The active stack after a call\<close>




subsection \<open>The timer and exceptions\<close>




subsection \<open>The call counter\<close>

text \<open>
  C5 (amended). In every sequential history of calls of decorated functions on a new
  singleton, with no rendering in between, the \<open>callcounter\<close> of a name equals the
  number of invocations of that function the wrapper has started, whether they returned
  or raised; in particular \<open>N\<close> calls of a function whose body does not call it again
  give the call count \<open>N\<close>.
\<close>

theorem callcounter_counts_invocations:
  "callcounter_of (run (map Invocation cs) (init t)) nm =
     int (count_list (concat (map invocations cs)) nm) \<and>
   (nm \<notin> set (body_invocations b) \<longrightarrow>
     callcounter_of (run (map Invocation (replicate N (Call nm b))) (init t)) nm = int N)"
proof -
  have *: "callcounter_of (run (map Invocation cs) (init t)) nm =
     int (count_list (concat (map invocations cs)) nm)" for cs
    using run_invocations_advances[OF tracking_inv_init, of cs t]
    by (simp add: advances_def)
  have cnt: "count_list (concat (map invocations (replicate N (Call nm b)))) nm = N"
    if "nm \<notin> set (body_invocations b)"
    using that by (induction N) (simp_all add: count_list_0_iff)
  show ?thesis
  proof (intro conjI impI)
    show "callcounter_of (run (map Invocation cs) (init t)) nm =
      int (count_list (concat (map invocations cs)) nm)"
      by (rule *)
  next
    assume "nm \<notin> set (body_invocations b)"
    from cnt[OF this] *[of "replicate N (Call nm b)"]
    show "callcounter_of (run (map Invocation (replicate N (Call nm b))) (init t)) nm = int N"
      by (simp only:)
  qed
qed

text \<open>A history with a nested call and a raising call; three calls in a row.\<close>

theorem callcounter_counts_invocations_witness:
  "callcounter_of (run (map Invocation
       [Call ''m.f'' (Invoke (Call ''m.g'' Return) Return), Call ''m.g'' (Raise ValueError)])
     (init 0)) ''m.g'' =
     int (count_list (concat (map invocations
       [Call ''m.f'' (Invoke (Call ''m.g'' Return) Return), Call ''m.g'' (Raise ValueError)])) ''m.g'') \<and>
   count_list (concat (map invocations
       [Call ''m.f'' (Invoke (Call ''m.g'' Return) Return), Call ''m.g'' (Raise ValueError)])) ''m.g'' = 2 \<and>
   ''m.g'' \<notin> set (body_invocations (Invoke (Call ''m.h'' Return) Return)) \<and>
   callcounter_of (run (map Invocation
       (replicate 3 (Call ''m.g'' (Invoke (Call ''m.h'' Return) Return)))) (init 0)) ''m.g'' = int 3"
proof -
  have h: "''m.g'' \<notin> set (body_invocations (Invoke (Call ''m.h'' Return) Return))"
    by simp
  have n: "count_list (concat (map invocations
       [Call ''m.f'' (Invoke (Call ''m.g'' Return) Return), Call ''m.g'' (Raise ValueError)])) ''m.g'' = 2"
    by simp
  from callcounter_counts_invocations[where
      cs = "[Call ''m.f'' (Invoke (Call ''m.g'' Return) Return), Call ''m.g'' (Raise ValueError)]"
      and t = 0 and nm = "''m.g''" and b = "Invoke (Call ''m.h'' Return) Return" and N = 3] h n
  show ?thesis by blast
qed

text \<open>
  The claim as first stated (in every history the counter equals the number of
  invocations completed by the wrapper) fails in two ways: after a rendering the next
  call starts the count again at 1 although two invocations have completed, and an
  invocation that raises is counted although the wrapper never completes it.
\<close>

theorem callcounter_after_render_counterexample:
  "callcounter_of (run [Invocation (Call ''m.f'' Return), Chart,
       Invocation (Call ''m.f'' Return)] (init 0)) ''m.f'' = 1 \<and>
   count_list (concat (map returned_invocations
       [Call ''m.f'' Return, Call ''m.f'' Return])) ''m.f'' = 2 \<and>
   callcounter_of (run [Invocation (Call ''m.f'' (Raise (UserError ''boom'')))] (init 0)) ''m.f'' = 1 \<and>
   count_list (concat (map returned_invocations
       [Call ''m.f'' (Raise (UserError ''boom''))])) ''m.f'' = 0"
  by code_simp

subsection \<open>The list of all functions\<close>

text \<open>
  C6 (amended). In every sequential history of calls of decorated functions on a new
  singleton, with no rendering in between, \<open>my_list_all_functions\<close> holds exactly one
  entry for each name invoked, without duplicates, in the order of the first invocations;
  in particular a function that calls itself \<open>k\<close> times before it returns is
  registered once.
\<close>

theorem all_functions_first_invocation_order:
  "all_names (run (map Invocation cs) (init t)) =
     first_occurrences (concat (map invocations cs)) \<and>
   distinct (all_names (run (map Invocation cs) (init t))) \<and>
   all_names (run [Invocation (self_recursive nm k)] (init t)) = [nm]"
proof -
  have *: "all_names (run (map Invocation cs) (init t)) =
     first_occurrences (concat (map invocations cs))" for cs
    using run_invocations_advances[OF tracking_inv_init, of cs t]
    by (simp add: advances_def)
  from *[of "[self_recursive nm k]"]
  have "all_names (run [Invocation (self_recursive nm k)] (init t)) = [nm]"
    by (simp only: list.map concat.simps append_Nil2 invocations_self_recursive
        first_occurrences_replicate)
  with * show ?thesis by simp
qed

text \<open>A history with a recursive call and a repeated function.\<close>

theorem all_functions_first_invocation_order_witness:
  "all_names (run (map Invocation
       [Call ''m.f'' (Invoke (Call ''m.g'' Return) (Invoke (Call ''m.f'' Return) Return)),
        Call ''m.g'' Return]) (init 0)) =
     first_occurrences (concat (map invocations
       [Call ''m.f'' (Invoke (Call ''m.g'' Return) (Invoke (Call ''m.f'' Return) Return)),
        Call ''m.g'' Return])) \<and>
   first_occurrences (concat (map invocations
       [Call ''m.f'' (Invoke (Call ''m.g'' Return) (Invoke (Call ''m.f'' Return) Return)),
        Call ''m.g'' Return])) = [''m.f'', ''m.g''] \<and>
   distinct (all_names (run (map Invocation
       [Call ''m.f'' (Invoke (Call ''m.g'' Return) (Invoke (Call ''m.f'' Return) Return)),
        Call ''m.g'' Return]) (init 0))) \<and>
   all_names (run [Invocation (self_recursive ''m.f'' 3)] (init 0)) = [''m.f'']"
proof -
  have n: "first_occurrences (concat (map invocations
       [Call ''m.f'' (Invoke (Call ''m.g'' Return) (Invoke (Call ''m.f'' Return) Return)),
        Call ''m.g'' Return])) = [''m.f'', ''m.g'']"
    by code_simp
  from all_functions_first_invocation_order[where
      cs = "[Call ''m.f'' (Invoke (Call ''m.g'' Return) (Invoke (Call ''m.f'' Return) Return)),
        Call ''m.g'' Return]" and t = 0 and nm = "''m.f''" and k = 3] n
  show ?thesis by blast
qed

text \<open>
  The claim as first stated (the list never has duplicates) fails as soon as
  \<open>make_graphviz_chart\<close> has run between two calls of the same function.
\<close>

theorem duplicate_after_render_counterexample:
  "all_names (run [Invocation (Call ''m.f'' Return), Chart,
       Invocation (Call ''m.f'' Return)] (init 0)) = [''m.f'', ''m.f''] \<and>
   \<not> distinct (all_names (run [Invocation (Call ''m.f'' Return), Chart,
       Invocation (Call ''m.f'' Return)] (init 0)))"
  by code_simp

subsection \<open>Source functions\<close>




subsection \<open>Equality of \<open>MethodCall\<close> records\<close>

text \<open>
  C8 (amended). Two \<open>MethodCall\<close> records are equal if and only if their names are
  equal and their \<open>node\<close> fields are equal: the rendering handle does take part in the
  equality that \<open>@dataclass\<close> generates. Records whose \<open>node\<close> is \<open>None\<close>, as the
  wrapper makes them, are equal if and only if their names are equal.
\<close>

theorem MethodCall_eq_fields:
  "(MethodCall_eq x y \<longleftrightarrow> name x = name y \<and> node x = node y) \<and>
   (MethodCall_eq (x\<lparr>node := None\<rparr>) (y\<lparr>node := None\<rparr>) \<longleftrightarrow> name x = name y)"
  by (cases x; cases y) (simp add: MethodCall_eq_def)

text \<open>
  The claim as first stated (equal if and only if the names are equal) fails for a
  record and its rendered copy.
\<close>

theorem MethodCall_eq_name_only_counterexample:
  "\<not> (MethodCall_eq \<lparr>name = ''m.f'', node = None\<rparr> \<lparr>name = ''m.f'', node = Some 0\<rparr>
       \<longleftrightarrow> name \<lparr>name = ''m.f'', node = None\<rparr> = name \<lparr>name = ''m.f'', node = Some 0\<rparr>)"
  by (simp add: MethodCall_eq_def)

subsection \<open>The scenario of the test suite\<close>

text \<open>
  C9. On a new singleton the single call \<open>sum_recursive(1, 1)\<close> leaves exactly two
  entries in \<open>my_list_all_functions\<close>, \<open>sum_recursive\<close> and \<open>print_value\<close>, with
  \<open>callcounter\<close> 2 for each of them.
\<close>

theorem sum_recursive_1_1_registers_two_functions:
  "all_names (run [Invocation (sum_recursive m 1 1)] (init t)) =
     [m @ ''.sum_recursive'', m @ ''.print_value''] \<and>
   length (my_list_all_functions (run [Invocation (sum_recursive m 1 1)] (init t))) = 2 \<and>
   callcounter_of (run [Invocation (sum_recursive m 1 1)] (init t)) (m @ ''.sum_recursive'') = 2 \<and>
   callcounter_of (run [Invocation (sum_recursive m 1 1)] (init t)) (m @ ''.print_value'') = 2"
proof -
  let ?s = "run [Invocation (sum_recursive m 1 1)] (init t)"
  from run_invocations_advances[OF tracking_inv_init, of "[sum_recursive m 1 1]" t]
  have a: "advances (invocations (sum_recursive m 1 1)) (init t) ?s" by simp
  have n: "all_names ?s = [m @ ''.sum_recursive'', m @ ''.print_value'']"
    using a unfolding invocations_sum_recursive_1_1
    by (simp add: advances_def first_occurrences_def)
  have "length (all_names ?s) = length (my_list_all_functions ?s)"
    by (simp add: all_names_def names_def)
  then have "length (my_list_all_functions ?s) = 2"
    unfolding n by simp
  moreover have "callcounter_of ?s (m @ ''.sum_recursive'') = 2"
    "callcounter_of ?s (m @ ''.print_value'') = 2"
    using a unfolding invocations_sum_recursive_1_1
    by (simp_all add: advances_def)
  ultimately show ?thesis using n by simp
qed

text \<open>The same for the module name of the test file.\<close>

theorem sum_recursive_1_1_registers_two_functions_witness:
  "all_names (run [Invocation (sum_recursive ''test_store_funcs'' 1 1)] (init 0)) =
     [''test_store_funcs'' @ ''.sum_recursive'', ''test_store_funcs'' @ ''.print_value''] \<and>
   length (my_list_all_functions
     (run [Invocation (sum_recursive ''test_store_funcs'' 1 1)] (init 0))) = 2 \<and>
   callcounter_of (run [Invocation (sum_recursive ''test_store_funcs'' 1 1)] (init 0))
     (''test_store_funcs'' @ ''.sum_recursive'') = 2 \<and>
   callcounter_of (run [Invocation (sum_recursive ''test_store_funcs'' 1 1)] (init 0))
     (''test_store_funcs'' @ ''.print_value'') = 2"
  by (rule sum_recursive_1_1_registers_two_functions)

subsection \<open>A call after rendering\<close>

text \<open>
  C10. After \<open>make_graphviz_chart\<close> has run and given the stored record of a function a
  node, the \<open>MethodCall\<close> a later invocation of that function builds (with \<open>node = None\<close>)
  is not found in \<open>my_list_all_functions\<close>: the wrapper registers the function again,
  a second entry with the same name is appended, and its \<open>my_info\<close> entry is made anew
  with \<open>callcounter\<close> 1 and \<open>timer\<close> 0, whatever it held before.
\<close>

theorem rendered_function_is_registered_again:
  assumes ok: "addrs_ok s0"
    and chart: "make_graphviz_chart s0 = (Returned, s)"
    and reg: "nm \<in> set (all_names s0)"
  shows "nm \<in> set (all_names s) \<and>
     \<not> exist_entry (store s @ [\<lparr>name = nm, node = None\<rparr>]) (length (store s))
          (my_list_all_functions s) \<and>
     fst (wrapper_before nm s) = Inr (length (store s)) \<and>
     my_list_all_functions (snd (wrapper_before nm s)) =
       my_list_all_functions s @ [length (store s)] \<and>
     all_names (snd (wrapper_before nm s)) = all_names s @ [nm] \<and>
     my_info (snd (wrapper_before nm s)) nm =
       Some \<lparr>timer = 0, callcounter = 1, start = clock s,
             source_functions = top_source s nm\<rparr>"
proof -
  note e = make_graphviz_chart_effect[OF chart]
  have ok': "\<forall>a\<in>set (my_list_all_functions s). a < length (store s)"
    "\<forall>a\<in>set (my_list_source_functions s). a < length (store s)"
    using addrs_okD[OF ok] e(1,2,3) by simp_all
  have "node (store s ! a) \<noteq> None" if "a \<in> set (my_list_all_functions s)" for a
    using that e(6) e(2) addrs_okD(1)[OF ok] by auto
  then have new: "\<not> (\<exists>a\<in>set (my_list_all_functions s). store s ! a = \<lparr>name = nm, node = None\<rparr>)"
    by force
  note w = wrapper_before_new[OF ok' new]
  have "names (snd (wrapper_before nm s)) (my_list_all_functions s) =
        names s (my_list_all_functions s)"
    by (rule names_append_store[OF ok'(1)]) (simp add: w)
  then have an: "all_names (snd (wrapper_before nm s)) = all_names s @ [nm]"
    by (simp add: w all_names_def names_def)
  from new have "\<not> exist_entry (store s @ [\<lparr>name = nm, node = None\<rparr>]) (length (store s))
          (my_list_all_functions s)"
    by (simp add: exist_entry_fresh[OF ok'(1)])
  with reg e(5) an show ?thesis
    by (simp add: w)
qed

text \<open>One call of \<open>m.f\<close> that takes a second, a rendering, and \<open>m.f\<close> is called again.\<close>

theorem rendered_function_is_registered_again_witness:
  "addrs_ok (run [Invocation (Call ''m.f'' (Work 1 Return))] (init 0)) \<and>
   fst (make_graphviz_chart (run [Invocation (Call ''m.f'' (Work 1 Return))] (init 0))) = Returned \<and>
   ''m.f'' \<in> set (all_names (run [Invocation (Call ''m.f'' (Work 1 Return))] (init 0))) \<and>
   timer_of (run [Invocation (Call ''m.f'' (Work 1 Return))] (init 0)) ''m.f'' = 1000 \<and>
   all_names (snd (wrapper_before ''m.f''
       (snd (make_graphviz_chart (run [Invocation (Call ''m.f'' (Work 1 Return))] (init 0)))))) =
     all_names (snd (make_graphviz_chart (run [Invocation (Call ''m.f'' (Work 1 Return))] (init 0))))
       @ [''m.f''] \<and>
   my_info (snd (wrapper_before ''m.f''
       (snd (make_graphviz_chart (run [Invocation (Call ''m.f'' (Work 1 Return))] (init 0)))))) ''m.f'' =
     Some \<lparr>timer = 0, callcounter = 1,
       start = clock (snd (make_graphviz_chart (run [Invocation (Call ''m.f'' (Work 1 Return))] (init 0)))),
       source_functions = top_source
         (snd (make_graphviz_chart (run [Invocation (Call ''m.f'' (Work 1 Return))] (init 0)))) ''m.f''\<rparr>"
proof -
  let ?s0 = "run [Invocation (Call ''m.f'' (Work 1 Return))] (init 0)"
  have ok: "addrs_ok ?s0" by code_simp
  have r: "fst (make_graphviz_chart ?s0) = Returned" by code_simp
  then have chart: "make_graphviz_chart ?s0 = (Returned, snd (make_graphviz_chart ?s0))"
    by (simp add: prod_eq_iff)
  have f: "''m.f'' \<in> set (all_names ?s0)" by code_simp
  have t: "timer_of ?s0 ''m.f'' = 1000" by code_simp
  from rendered_function_is_registered_again[OF ok chart f] ok r f t
  show ?thesis by blast
qed

end
